theory Spec2Isabelle
  imports Complex_Main "HOL-Library.Word"
begin

unbundle bit_operations_syntax

section \<open>The system random provider of libsodium (randombytes\_sysrandom.c)\<close>

text \<open>
  The file under study is \<^verbatim>\<open>src/libsodium/randombytes/sysrandom/randombytes_sysrandom.c\<close>.
  It keeps one process-wide \<^verbatim>\<open>SysRandom stream\<close> and talks to the operating system
  through \<^verbatim>\<open>access\<close>, \<^verbatim>\<open>open\<close>, \<^verbatim>\<open>read\<close> and \<^verbatim>\<open>close\<close> (POSIX build) or through
  \<^verbatim>\<open>CryptAcquireContext\<close>, \<^verbatim>\<open>CryptGenRandom\<close> and \<^verbatim>\<open>CryptReleaseContext\<close>
  (\<^verbatim>\<open>_WIN32\<close> build).

  Conventions of the embedding:
  \<^item> \<^verbatim>\<open>size_t\<close> and \<^verbatim>\<open>ssize_t\<close> are 64-bit words (an LP64 host); the signed reading of an
    \<^verbatim>\<open>ssize_t\<close> is \<open>sint\<close>, signed comparison is \<open><s\<close>. \<^verbatim>\<open>uint32_t\<close> is a 32-bit word and
    \<^verbatim>\<open>unsigned int\<close> has 32 bits, so no integer promotion widens a \<^verbatim>\<open>uint32_t\<close>.
  \<^item> \<^verbatim>\<open>abort()\<close> is the outcome \<open>Abort\<close>; a normal return is \<open>Return\<close> of the result and
    of the state after the call.
  \<^item> The operating system is a state of its own, passed through every call. The functions
    of the C file are translated one by one on top of it.
\<close>

type_synonym byte = "8 word"
type_synonym size_t = "64 word"
type_synonym ssize_t = "64 word"
type_synonym uint32_t = "32 word"

datatype 'a outcome = Abort | Return 'a

subsection \<open>The POSIX host\<close>

text \<open>
  What the entropy descriptor answers to successive \<^verbatim>\<open>read\<close> calls is a script: an event
  \<open>Delivers bs\<close> holds bytes the device is ready to hand out (\<open>Delivers []\<close> is a read that
  returns 0), an event \<open>Fails e\<close> is a read that returns \<open>-1\<close> with \<^verbatim>\<open>errno\<close> set to \<open>e\<close>.
  A read never returns more than the \<^verbatim>\<open>count\<close> it was given nor more than \<^verbatim>\<open>SSIZE_MAX\<close>
  (its result is an \<^verbatim>\<open>ssize_t\<close>); bytes of a chunk that did not fit stay ready for the next
  read. After the end of the script every read returns 0.
\<close>

datatype read_event = Delivers "byte list" | Fails int

datatype syscall = Access string | Open string | Close int | Read int size_t

record posix_os =
  readable :: "string \<Rightarrow> bool"
  open_result :: "string \<Rightarrow> int"
  close_result :: "int \<Rightarrow> int"
  pending :: "read_event list"
  errno :: int
  syscalls :: "syscall list"

text \<open>
  \<open>readable p\<close> says that \<^verbatim>\<open>access(p, F_OK | R_OK)\<close> returns 0, \<open>open_result p\<close> is what
  \<^verbatim>\<open>open(p, O_RDONLY)\<close> returns (a descriptor, or \<open>-1\<close>), \<open>close_result fd\<close> is what
  \<^verbatim>\<open>close(fd)\<close> returns. \<open>syscalls\<close> records every call made, oldest first.
  \<^verbatim>\<open>errno.h\<close> is not part of the repository; \<open>EINTR\<close> has its Linux value.
\<close>

definition EINTR :: int where
  "EINTR = 4"

definition SSIZE_MAX :: nat where
  "SSIZE_MAX = 2 ^ 63 - 1"

definition posix_access :: "posix_os \<Rightarrow> string \<Rightarrow> int \<times> posix_os" where
  "posix_access s path =
     ((if readable s path then 0 else -1), s\<lparr>syscalls := syscalls s @ [Access path]\<rparr>)"

definition posix_open :: "posix_os \<Rightarrow> string \<Rightarrow> int \<times> posix_os" where
  "posix_open s path = (open_result s path, s\<lparr>syscalls := syscalls s @ [Open path]\<rparr>)"

definition posix_close :: "posix_os \<Rightarrow> int \<Rightarrow> int \<times> posix_os" where
  "posix_close s fd = (close_result s fd, s\<lparr>syscalls := syscalls s @ [Close fd]\<rparr>)"

text \<open>\<open>posix_read s fd count\<close> gives the value returned, the bytes stored at the buffer
  address, and the host afterwards.\<close>

definition posix_read :: "posix_os \<Rightarrow> int \<Rightarrow> size_t \<Rightarrow> (ssize_t \<times> byte list) \<times> posix_os" where
  "posix_read s fd count =
     (let s1 = s\<lparr>syscalls := syscalls s @ [Read fd count]\<rparr> in
      case pending s of
        [] \<Rightarrow> ((0, []), s1)
      | Fails e # es \<Rightarrow> ((- 1, []), s1\<lparr>pending := es, errno := e\<rparr>)
      | Delivers bs # es \<Rightarrow>
          (let n = min (length bs) (min (unat count) SSIZE_MAX);
               rest = drop n bs
           in ((of_nat n, take n bs),
               s1\<lparr>pending := (if rest = [] then es else Delivers rest # es)\<rparr>)))"

text \<open>The size of what a script can still answer: it bounds the number of reads that make
  progress, and is the termination measure of every loop below.\<close>

fun event_weight :: "read_event \<Rightarrow> nat" where
  "event_weight (Delivers bs) = Suc (length bs)"
| "event_weight (Fails e) = 1"

definition script_weight :: "posix_os \<Rightarrow> nat" where
  "script_weight s = sum_list (map event_weight (pending s))"

lemma posix_read_weight:
  assumes "posix_read s fd count = ((r, d), s')"
  shows "script_weight s' \<le> script_weight s"
    and "r \<noteq> 0 \<Longrightarrow> script_weight s' < script_weight s"
proof -
  show "script_weight s' \<le> script_weight s"
    using assms
    by (auto simp: posix_read_def script_weight_def Let_def
             split: list.splits read_event.splits if_splits)
  show "script_weight s' < script_weight s" if "r \<noteq> 0"
  proof (cases "pending s")
    case Nil
    with assms that show ?thesis by (simp add: posix_read_def)
  next
    case (Cons e es)
    show ?thesis
    proof (cases e)
      case (Fails x)
      with Cons assms show ?thesis
        by (auto simp: posix_read_def script_weight_def)
    next
      case (Delivers bs)
      define n where "n = min (length bs) (min (unat count) SSIZE_MAX)"
      from assms Cons Delivers have r: "r = of_nat n"
        and s': "pending s' = (if drop n bs = [] then es else Delivers (drop n bs) # es)"
        by (auto simp: posix_read_def Let_def n_def)
      from r that have "n \<noteq> 0" by (cases "n = 0") auto
      then have "0 < n" "n \<le> length bs" by (auto simp: n_def)
      with s' Cons Delivers show ?thesis
        by (auto simp: script_weight_def)
    qed
  qed
qed

subsection \<open>safe\_read\<close>

text \<open>
  The inner loop of \<^verbatim>\<open>safe_read\<close>:
  \<^verbatim>\<open>while ((readnb = read(fd, buf, count)) < (ssize_t) 0 && errno == EINTR);\<close>
\<close>

function read_retry :: "posix_os \<Rightarrow> int \<Rightarrow> size_t \<Rightarrow> (ssize_t \<times> byte list) \<times> posix_os" where
  "read_retry s fd count =
     (case posix_read s fd count of
        ((readnb, d), s') \<Rightarrow>
          if readnb <s 0 \<and> errno s' = EINTR then read_retry s' fd count
          else ((readnb, d), s'))"
  by pat_completeness auto
termination
proof (relation "measure (\<lambda>(s, fd, count). script_weight s)", goal_cases)
  case 1
  show ?case by simp
next
  case (2 s fd count x s' readnb d)
  then have "posix_read s fd count = ((readnb, d), s')" "readnb \<noteq> 0"
    by auto
  then show ?case
    using posix_read_weight(2) by simp
qed

declare read_retry.simps [simp del]

lemma read_retry_weight:
  "read_retry s fd count = ((r, d), s') \<Longrightarrow>
     script_weight s' \<le> script_weight s \<and> (r \<noteq> 0 \<longrightarrow> script_weight s' < script_weight s)"
proof (induction s fd count rule: read_retry.induct)
  case (1 s fd count)
  obtain r1 d1 s1 where pr: "posix_read s fd count = ((r1, d1), s1)"
    by (metis surj_pair)
  note w = posix_read_weight [OF pr]
  show ?case
  proof (cases "r1 <s 0 \<and> errno s1 = EINTR")
    case True
    with pr "1.prems" have "read_retry s1 fd count = ((r, d), s')"
      by (simp add: read_retry.simps [of s])
    with "1.IH" [OF pr [symmetric] refl] True
    have "script_weight s' \<le> script_weight s1"
      and "r \<noteq> 0 \<longrightarrow> script_weight s' < script_weight s1"
      by auto
    moreover from True have "r1 \<noteq> 0" by auto
    ultimately show ?thesis using w by auto
  next
    case False
    with pr "1.prems" have "r = r1" "s' = s1"
      by (auto simp: read_retry.simps [of s])
    with w show ?thesis by auto
  qed
qed

text \<open>
  The outer \<^verbatim>\<open>do ... while (count > (ssize_t) 0)\<close> loop. The parameter \<open>out\<close> is the
  content of the buffer from \<^verbatim>\<open>buf_\<close> up to the moving pointer \<^verbatim>\<open>buf\<close>, so that
  \<^verbatim>\<open>buf - (unsigned char *) buf_\<close> is its length. \<^verbatim>\<open>count\<close> is a \<^verbatim>\<open>size_t\<close>: the loop
  test compares unsigned.
\<close>

function safe_read_loop ::
  "posix_os \<Rightarrow> int \<Rightarrow> byte list \<Rightarrow> size_t \<Rightarrow> ssize_t \<times> byte list \<times> posix_os" where
  "safe_read_loop s fd out count =
     (case read_retry s fd count of
        ((readnb, d), s') \<Rightarrow>
          if readnb <s 0 then (readnb, out, s')
          else if readnb = 0 then (of_nat (length out), out, s')
          else if 0 < count - readnb then safe_read_loop s' fd (out @ d) (count - readnb)
          else (of_nat (length (out @ d)), out @ d, s'))"
  by pat_completeness auto
termination
proof (relation "measure (\<lambda>(s, fd, out, count). script_weight s)", goal_cases)
  case 1
  show ?case by simp
next
  case (2 s fd out count x s' readnb d)
  then have "read_retry s fd count = ((readnb, d), s')" "readnb \<noteq> 0"
    by auto
  then show ?case
    using read_retry_weight by simp
qed

declare safe_read_loop.simps [simp del]

definition safe_read :: "posix_os \<Rightarrow> int \<Rightarrow> size_t \<Rightarrow> ssize_t \<times> byte list \<times> posix_os" where
  "safe_read s fd count = safe_read_loop s fd [] count"

lemma safe_read_loop_weight:
  "safe_read_loop s fd out count = (ret, out', s') \<Longrightarrow>
     script_weight s' \<le> script_weight s \<and>
     (ret \<noteq> of_nat (length out) \<longrightarrow> script_weight s' < script_weight s)"
proof (induction s fd out count rule: safe_read_loop.induct)
  case (1 s fd out count)
  obtain r1 d1 s1 where rr: "read_retry s fd count = ((r1, d1), s1)"
    by (metis surj_pair)
  note w = read_retry_weight [OF rr]
  consider (err) "r1 <s 0" | (eof) "\<not> r1 <s 0" "r1 = 0"
    | (more) "\<not> r1 <s 0" "r1 \<noteq> 0" "0 < count - r1"
    | (full) "\<not> r1 <s 0" "r1 \<noteq> 0" "\<not> 0 < count - r1"
    by blast
  then show ?case
  proof cases
    case err
    then have "r1 \<noteq> 0" by auto
    with err rr "1.prems" w show ?thesis
      by (auto simp: safe_read_loop.simps [of s])
  next
    case eof
    with rr "1.prems" w show ?thesis
      by (auto simp: safe_read_loop.simps [of s])
  next
    case more
    with rr "1.prems" have "safe_read_loop s1 fd (out @ d1) (count - r1) = (ret, out', s')"
      by (simp add: safe_read_loop.simps [of s])
    with "1.IH" [OF rr [symmetric] refl more] have "script_weight s' \<le> script_weight s1"
      by simp
    with w more show ?thesis by auto
  next
    case full
    with rr "1.prems" w show ?thesis
      by (auto simp: safe_read_loop.simps [of s])
  qed
qed

lemma safe_read_weight:
  "safe_read s fd count = (ret, out', s') \<Longrightarrow> ret \<noteq> 0 \<Longrightarrow> script_weight s' < script_weight s"
  using safe_read_loop_weight [of s fd "[]" count ret out' s'] by (simp add: safe_read_def)

text \<open>
  Vocabulary for scripts. An interrupted read fails with \<^verbatim>\<open>EINTR\<close>; a short read delivers
  at least one byte; \<open>chunks\<close> is the concatenation of everything a script delivers; a
  script is \<open>benign\<close> when it consists of short reads and interrupted reads only.
\<close>

fun interrupted :: "read_event \<Rightarrow> bool" where
  "interrupted (Fails e) = (e = EINTR)"
| "interrupted (Delivers bs) = False"

fun short_read :: "read_event \<Rightarrow> bool" where
  "short_read (Delivers bs) = (bs \<noteq> [])"
| "short_read (Fails e) = False"

fun chunks :: "read_event list \<Rightarrow> byte list" where
  "chunks [] = []"
| "chunks (Delivers bs # es) = bs @ chunks es"
| "chunks (Fails e # es) = chunks es"

definition benign :: "read_event list \<Rightarrow> bool" where
  "benign script = list_all (\<lambda>e. short_read e \<or> interrupted e) script"

subsection \<open>The provider state and source acquisition (POSIX build)\<close>

record SysRandom =
  random_data_source_fd :: int
  initialized :: bool

text \<open>The static initialiser of \<^verbatim>\<open>stream\<close>.\<close>

definition stream_init :: SysRandom where
  "stream_init = \<lparr>random_data_source_fd = - 1, initialized = False\<rparr>"

text \<open>
  The whole state a call runs in: the singleton, the host, and the build-time switch
  \<^verbatim>\<open>USE_BLOCKING_RANDOM\<close>.
\<close>

record world =
  stream :: SysRandom
  os :: posix_os
  use_blocking_random :: bool

definition devices :: "bool \<Rightarrow> string list" where
  "devices blocking =
     (if blocking then [''/dev/random'']
      else [''/dev/arandom'', ''/dev/urandom'', ''/dev/random''])"

text \<open>
  The \<^verbatim>\<open>do ... while (*device != NULL)\<close> loop over the device table: the first device
  that passes the \<^verbatim>\<open>access\<close> probe is opened and the result of \<^verbatim>\<open>open\<close> is returned as it
  is, also when it is \<open>-1\<close>. The table always has a first entry; the equation for the empty
  list is the exit of the loop.
\<close>

fun dev_open_loop :: "posix_os \<Rightarrow> string list \<Rightarrow> int \<times> posix_os" where
  "dev_open_loop s [] = (- 1, s)"
| "dev_open_loop s (device # rest) =
     (case posix_access s device of
        (r, s1) \<Rightarrow> if r = 0 then posix_open s1 device else dev_open_loop s1 rest)"

definition randombytes_sysrandom_random_dev_open :: "world \<Rightarrow> int \<times> posix_os" where
  "randombytes_sysrandom_random_dev_open w = dev_open_loop (os w) (devices (use_blocking_random w))"

definition randombytes_sysrandom_init :: "world \<Rightarrow> world outcome" where
  "randombytes_sysrandom_init w =
     (case randombytes_sysrandom_random_dev_open w of
        (fd, s') \<Rightarrow>
          if fd = - 1 then Abort
          else Return (w\<lparr>stream := (stream w)\<lparr>random_data_source_fd := fd\<rparr>, os := s'\<rparr>))"

definition randombytes_sysrandom_stir :: "world \<Rightarrow> world outcome" where
  "randombytes_sysrandom_stir w =
     (if \<not> initialized (stream w) then
        (case randombytes_sysrandom_init w of
           Abort \<Rightarrow> Abort
         | Return w' \<Rightarrow> Return (w'\<lparr>stream := (stream w')\<lparr>initialized := True\<rparr>\<rparr>))
      else Return w)"

definition randombytes_sysrandom_stir_if_needed :: "world \<Rightarrow> world outcome" where
  "randombytes_sysrandom_stir_if_needed w =
     (if \<not> initialized (stream w) then randombytes_sysrandom_stir w else Return w)"

definition randombytes_sysrandom_close :: "world \<Rightarrow> int \<times> world" where
  "randombytes_sysrandom_close w =
     (if random_data_source_fd (stream w) \<noteq> - 1 then
        (case posix_close (os w) (random_data_source_fd (stream w)) of
           (r, s') \<Rightarrow>
             if r = 0 then
               (0, w\<lparr>stream := (stream w)\<lparr>random_data_source_fd := - 1, initialized := False\<rparr>,
                     os := s'\<rparr>)
             else (- 1, w\<lparr>os := s'\<rparr>))
      else (- 1, w))"

subsection \<open>Byte delivery and the derived operations (POSIX build)\<close>

text \<open>
  \<^verbatim>\<open>randombytes_sysrandom_buf\<close>: the result of \<^verbatim>\<open>safe_read\<close> is compared with
  \<^verbatim>\<open>(ssize_t) size\<close>, the same 64 bits read as signed. The assertion
  \<^verbatim>\<open>size <= ULONG_LONG_MAX\<close> holds for every 64-bit \<^verbatim>\<open>size\<close>. The bytes returned are the
  content of the caller's buffer from its start, as far as the call has written it.
\<close>

definition randombytes_sysrandom_buf :: "world \<Rightarrow> size_t \<Rightarrow> (byte list \<times> world) outcome" where
  "randombytes_sysrandom_buf w size' =
     (case randombytes_sysrandom_stir_if_needed w of
        Abort \<Rightarrow> Abort
      | Return w1 \<Rightarrow>
          (case safe_read (os w1) (random_data_source_fd (stream w1)) size' of
             (ret, out, s') \<Rightarrow>
               if ret \<noteq> size' then Abort else Return (out, w1\<lparr>os := s'\<rparr>)))"

text \<open>The four bytes of \<^verbatim>\<open>uint32_t r\<close> read back on a little-endian host.\<close>

fun load_le :: "byte list \<Rightarrow> uint32_t" where
  "load_le [] = 0"
| "load_le (b # bs) = ucast b OR push_bit 8 (load_le bs)"

definition randombytes_sysrandom :: "world \<Rightarrow> (uint32_t \<times> world) outcome" where
  "randombytes_sysrandom w =
     (case randombytes_sysrandom_stir_if_needed w of
        Abort \<Rightarrow> Abort
      | Return w1 \<Rightarrow>
          (case randombytes_sysrandom_buf w1 4 of
             Abort \<Rightarrow> Abort
           | Return (bytes, w2) \<Rightarrow> Return (load_le bytes, w2)))"

lemma dev_open_loop_pending: "pending (snd (dev_open_loop s ds)) = pending s"
  by (induction ds arbitrary: s) (auto simp: posix_access_def posix_open_def)

lemma stir_if_needed_pending:
  "randombytes_sysrandom_stir_if_needed w = Return w1 \<Longrightarrow> pending (os w1) = pending (os w)"
  using dev_open_loop_pending [of "os w" "devices (use_blocking_random w)"]
  by (auto simp: randombytes_sysrandom_stir_if_needed_def randombytes_sysrandom_stir_def
                 randombytes_sysrandom_init_def randombytes_sysrandom_random_dev_open_def
           split: if_splits outcome.splits prod.splits)

lemma buf_weight:
  assumes "randombytes_sysrandom_buf w n = Return (out, w')" and "n \<noteq> 0"
  shows "script_weight (os w') < script_weight (os w)"
proof -
  from assms(1) obtain w1 ret s' where
    st: "randombytes_sysrandom_stir_if_needed w = Return w1"
    and sr: "safe_read (os w1) (random_data_source_fd (stream w1)) n = (ret, out, s')"
    and ret: "ret = n" and w': "w' = w1\<lparr>os := s'\<rparr>"
    by (auto simp: randombytes_sysrandom_buf_def split: outcome.splits prod.splits if_splits)
  from safe_read_weight [OF sr] ret assms(2) have "script_weight s' < script_weight (os w1)"
    by simp
  with stir_if_needed_pending [OF st] w' show ?thesis
    by (simp add: script_weight_def)
qed

lemma sysrandom_weight:
  assumes "randombytes_sysrandom w = Return (r, w')"
  shows "script_weight (os w') < script_weight (os w)"
proof -
  from assms obtain w1 bytes where
    st: "randombytes_sysrandom_stir_if_needed w = Return w1"
    and b: "randombytes_sysrandom_buf w1 4 = Return (bytes, w')"
    by (auto simp: randombytes_sysrandom_def split: outcome.splits prod.splits)
  from buf_weight [OF b] stir_if_needed_pending [OF st] show ?thesis
    by (simp add: script_weight_def)
qed

text \<open>
  \<^verbatim>\<open>randombytes_sysrandom_uniform\<close>. \<open>rejection_min\<close> is the local \<^verbatim>\<open>min\<close>: unary minus and
  \<^verbatim>\<open>%\<close> on a 32-bit unsigned value. \<open>uniform_loop\<close> is the \<^verbatim>\<open>for (;;)\<close> loop; it ends
  because every sample takes four bytes off a finite script, and a script that runs dry
  makes \<^verbatim>\<open>randombytes_sysrandom_buf\<close> abort.
\<close>

definition rejection_min :: "uint32_t \<Rightarrow> uint32_t" where
  "rejection_min upper_bound = (- upper_bound) mod upper_bound"

function uniform_loop :: "world \<Rightarrow> uint32_t \<Rightarrow> (uint32_t \<times> world) outcome" where
  "uniform_loop w min' =
     (case randombytes_sysrandom w of
        Abort \<Rightarrow> Abort
      | Return (r, w') \<Rightarrow> if r \<ge> min' then Return (r, w') else uniform_loop w' min')"
  by pat_completeness auto
termination
proof (relation "measure (\<lambda>(w, m). script_weight (os w))", goal_cases)
  case 1
  show ?case by simp
next
  case (2 w m x r w')
  then have "randombytes_sysrandom w = Return (r, w')" by simp
  from sysrandom_weight [OF this] show ?case by simp
qed

declare uniform_loop.simps [simp del]

definition randombytes_sysrandom_uniform :: "world \<Rightarrow> uint32_t \<Rightarrow> (uint32_t \<times> world) outcome" where
  "randombytes_sysrandom_uniform w upper_bound =
     (if upper_bound < 2 then Return (0, w)
      else
        (case uniform_loop w (rejection_min upper_bound) of
           Abort \<Rightarrow> Abort
         | Return (r, w') \<Rightarrow> Return (r mod upper_bound, w')))"

text \<open>The samples that successive calls of \<^verbatim>\<open>randombytes_sysrandom()\<close> return from a
  given state, up to the call that aborts.\<close>

function sample_stream :: "world \<Rightarrow> uint32_t list" where
  "sample_stream w =
     (case randombytes_sysrandom w of
        Abort \<Rightarrow> []
      | Return (r, w') \<Rightarrow> r # sample_stream w')"
  by pat_completeness auto
termination
proof (relation "measure (\<lambda>w. script_weight (os w))", goal_cases)
  case 1
  show ?case by simp
next
  case (2 w x r w')
  then have "randombytes_sysrandom w = Return (r, w')" by simp
  from sysrandom_weight [OF this] show ?case by simp
qed

declare sample_stream.simps [simp del]

text \<open>The invariant of the singleton in the POSIX build.\<close>

definition stream_inv :: "world \<Rightarrow> bool" where
  "stream_inv w \<longleftrightarrow> (initialized (stream w) \<longleftrightarrow> random_data_source_fd (stream w) \<noteq> - 1)"

text \<open>Calling \<^verbatim>\<open>randombytes_sysrandom_stir\<close> \<open>n\<close> times in a row.\<close>

fun stir_times :: "nat \<Rightarrow> world \<Rightarrow> world outcome" where
  "stir_times 0 w = Return w"
| "stir_times (Suc n) w =
     (case randombytes_sysrandom_stir w of
        Abort \<Rightarrow> Abort
      | Return w' \<Rightarrow> stir_times n w')"

subsection \<open>The \_WIN32 build\<close>

text \<open>
  Under \<^verbatim>\<open>_WIN32\<close> the struct has the extra member \<^verbatim>\<open>hcrypt_prov\<close>. The host answers
  \<^verbatim>\<open>CryptAcquireContext\<close> with a handle or with failure (\<open>None\<close>), each call of
  \<^verbatim>\<open>CryptGenRandom\<close> with the next entry of a script (\<open>None\<close> and the end of the script
  are failures), and \<^verbatim>\<open>CryptReleaseContext\<close> with a truth value. The length parameter of
  \<^verbatim>\<open>CryptGenRandom\<close> is a 32-bit \<^verbatim>\<open>DWORD\<close>. \<^verbatim>\<open>randombytes_sysrandom\<close> and
  \<^verbatim>\<open>randombytes_sysrandom_uniform\<close> have the same text in both builds and are modelled
  on the POSIX one only.
\<close>

record SysRandom_win32 = SysRandom +
  hcrypt_prov :: nat

record win32_os =
  acquire_result :: "nat option"
  gen_pending :: "byte list option list"
  release_result :: "nat \<Rightarrow> bool"

record world_win32 =
  stream_win32 :: SysRandom_win32
  os_win32 :: win32_os

definition CryptGenRandom :: "win32_os \<Rightarrow> nat \<Rightarrow> 32 word \<Rightarrow> bool \<times> byte list \<times> win32_os" where
  "CryptGenRandom s prov dwLen =
     (case gen_pending s of
        [] \<Rightarrow> (False, [], s)
      | None # rest \<Rightarrow> (False, [], s\<lparr>gen_pending := rest\<rparr>)
      | Some bs # rest \<Rightarrow> (True, take (unat dwLen) bs, s\<lparr>gen_pending := rest\<rparr>))"

definition randombytes_sysrandom_init_win32 :: "world_win32 \<Rightarrow> world_win32 outcome" where
  "randombytes_sysrandom_init_win32 w =
     (case acquire_result (os_win32 w) of
        None \<Rightarrow> Abort
      | Some h \<Rightarrow> Return (w\<lparr>stream_win32 := (stream_win32 w)\<lparr>hcrypt_prov := h\<rparr>\<rparr>))"

definition randombytes_sysrandom_stir_win32 :: "world_win32 \<Rightarrow> world_win32 outcome" where
  "randombytes_sysrandom_stir_win32 w =
     (if \<not> initialized (stream_win32 w) then
        (case randombytes_sysrandom_init_win32 w of
           Abort \<Rightarrow> Abort
         | Return w' \<Rightarrow> Return (w'\<lparr>stream_win32 := (stream_win32 w')\<lparr>initialized := True\<rparr>\<rparr>))
      else Return w)"

definition randombytes_sysrandom_stir_if_needed_win32 :: "world_win32 \<Rightarrow> world_win32 outcome" where
  "randombytes_sysrandom_stir_if_needed_win32 w =
     (if \<not> initialized (stream_win32 w) then randombytes_sysrandom_stir_win32 w else Return w)"

definition randombytes_sysrandom_close_win32 :: "world_win32 \<Rightarrow> int \<times> world_win32" where
  "randombytes_sysrandom_close_win32 w =
     (if initialized (stream_win32 w) \<and>
         release_result (os_win32 w) (hcrypt_prov (stream_win32 w))
      then (0, w\<lparr>stream_win32 := (stream_win32 w)\<lparr>initialized := False\<rparr>\<rparr>)
      else (- 1, w))"

definition randombytes_sysrandom_buf_win32 ::
  "world_win32 \<Rightarrow> size_t \<Rightarrow> (byte list \<times> world_win32) outcome" where
  "randombytes_sysrandom_buf_win32 w size' =
     (case randombytes_sysrandom_stir_if_needed_win32 w of
        Abort \<Rightarrow> Abort
      | Return w1 \<Rightarrow>
          (case CryptGenRandom (os_win32 w1) (hcrypt_prov (stream_win32 w1)) (ucast size') of
             (ok, out, s') \<Rightarrow>
               if \<not> ok then Abort else Return (out, w1\<lparr>os_win32 := s'\<rparr>)))"

subsection \<open>Fixtures\<close>

text \<open>A host on which \<^verbatim>\<open>/dev/urandom\<close> is the first readable device and opens as
  descriptor 3, with a given script behind it; and a fresh provider on that host.\<close>

definition host :: "read_event list \<Rightarrow> posix_os" where
  "host script =
     \<lparr>readable = (\<lambda>p. p = ''/dev/urandom'' \<or> p = ''/dev/random''),
      open_result = (\<lambda>p. 3), close_result = (\<lambda>fd. if fd = 3 then 0 else - 1),
      pending = script, errno = 0, syscalls = []\<rparr>"

definition fresh :: "read_event list \<Rightarrow> world" where
  "fresh script = \<lparr>stream = stream_init, os = host script, use_blocking_random = False\<rparr>"

text \<open>The same provider once the descriptor is open, with the three system calls of the
  acquisition on record.\<close>

definition ready :: "read_event list \<Rightarrow> world" where
  "ready script =
     \<lparr>stream = \<lparr>random_data_source_fd = 3, initialized = True\<rparr>,
      os = (host script)\<lparr>syscalls :=
             [Access ''/dev/arandom'', Access ''/dev/urandom'', Open ''/dev/urandom'']\<rparr>,
      use_blocking_random = False\<rparr>"

text \<open>Scenario S2 of the specification: the samples \<open>0x00000000\<close>, \<open>0xFFFFFFFF\<close>,
  \<open>0x00000003\<close>, \<open>0x00000009\<close>, one read each. And a script in which the second sample
  arrives in two pieces around an interrupted read.\<close>

definition S2_script :: "read_event list" where
  "S2_script = [Delivers [0, 0, 0, 0], Delivers [0xFF, 0xFF, 0xFF, 0xFF],
                Delivers [3, 0, 0, 0], Delivers [9, 0, 0, 0]]"

definition three_script :: "read_event list" where
  "three_script = [Delivers [0, 0, 0, 0, 7, 0], Fails EINTR, Delivers [0, 0]]"

text \<open>A provider whose descriptor the host refuses to close, and the \<^verbatim>\<open>_WIN32\<close> provider
  with a context acquired or released, on a host whose release succeeds or not.\<close>

definition stuck :: world where
  "stuck = \<lparr>stream = \<lparr>random_data_source_fd = 5, initialized = True\<rparr>,
            os = host [], use_blocking_random = False\<rparr>"

definition host_win32 :: "bool \<Rightarrow> win32_os" where
  "host_win32 ok = \<lparr>acquire_result = Some 7, gen_pending = [], release_result = (\<lambda>h. ok)\<rparr>"

definition ready_win32 :: "bool \<Rightarrow> world_win32" where
  "ready_win32 ok =
     \<lparr>stream_win32 = \<lparr>random_data_source_fd = - 1, initialized = True, hcrypt_prov = 7\<rparr>,
      os_win32 = host_win32 ok\<rparr>"

definition closed_win32 :: "bool \<Rightarrow> world_win32" where
  "closed_win32 ok =
     \<lparr>stream_win32 = \<lparr>random_data_source_fd = - 1, initialized = False, hcrypt_prov = 7\<rparr>,
      os_win32 = host_win32 ok\<rparr>"

text \<open>Six bytes that arrive over three short reads and three interrupted ones.\<close>

definition short_script :: "read_event list" where
  "short_script = [Fails EINTR, Delivers [1, 2], Fails EINTR, Fails EINTR, Delivers [3],
                   Delivers [4, 5, 6]]"

lemmas provider_defs =
  randombytes_sysrandom_stir_if_needed_def randombytes_sysrandom_stir_def
  randombytes_sysrandom_init_def randombytes_sysrandom_random_dev_open_def devices_def
  posix_access_def posix_open_def posix_close_def

lemmas read_defs =
  safe_read_def safe_read_loop.simps read_retry.simps posix_read_def SSIZE_MAX_def EINTR_def
  Let_def word_sless_alt

lemmas fixture_defs = fresh_def ready_def host_def stream_init_def

lemmas sample_defs =
  randombytes_sysrandom_uniform_def uniform_loop.simps sample_stream.simps
  randombytes_sysrandom_def randombytes_sysrandom_buf_def rejection_min_def

section \<open>The rejection threshold\<close>

lemma unat_neg32: "ub \<noteq> 0 \<Longrightarrow> unat (- ub :: 32 word) = 2 ^ 32 - unat ub"
  using unat_sub_if' [of 0 ub] by (simp add: unat_gt_0 unat_eq_0)

lemma mod_compl: "0 < (u::nat) \<Longrightarrow> u \<le> m \<Longrightarrow> (m - u) mod u = m mod u"
  by (simp add: le_mod_geq)

lemma unat_rejection_min:
  assumes "ub \<noteq> 0"
  shows "unat (rejection_min ub) = 2 ^ 32 mod unat ub"
proof -
  have lt: "unat ub < 2 ^ 32" using unsigned_less [of ub] by simp
  have pos: "0 < unat ub" using assms by (simp add: unat_gt_0)
  have "unat (rejection_min ub) = (2 ^ 32 - unat ub) mod unat ub"
    using assms by (simp add: rejection_min_def unat_mod unat_neg32)
  also have "\<dots> = 2 ^ 32 mod unat ub"
    using lt pos by (intro mod_compl) simp_all
  finally show ?thesis .
qed

lemma mod_below_half:
  fixes u :: nat
  assumes "0 < u" "u < 2 ^ 32"
  shows "2 ^ 32 mod u < (2 ^ 31 :: nat)"
proof (cases "u \<le> 2 ^ 31")
  case True
  have "2 ^ 32 mod u < u" using assms(1) by simp
  with True show ?thesis by linarith
next
  case False
  then have "(2 ^ 32 :: nat) - u < u" using assms by simp
  moreover have "(2 ^ 32 :: nat) mod u = (2 ^ 32 - u) mod u"
    using assms by (simp add: mod_compl)
  ultimately have "(2 ^ 32 :: nat) mod u = 2 ^ 32 - u" by simp
  with False show ?thesis by simp
qed

lemma card_below: "card {r :: uint32_t. r < m} = unat m"
proof -
  have "unat ` {r :: uint32_t. r < m} = {..<unat m}"
  proof (intro set_eqI iffI)
    fix n assume "n \<in> unat ` {r :: uint32_t. r < m}"
    then show "n \<in> {..<unat m}" by (auto simp: word_less_nat_alt)
  next
    fix n assume "n \<in> {..<unat m}"
    then have n: "n < unat m" by simp
    then have "unat (of_nat n :: uint32_t) = n"
      using le_unat_uoi [of n m] by simp
    with n have "(of_nat n :: uint32_t) \<in> {r. r < m}" by (simp add: word_less_nat_alt)
    with \<open>unat (of_nat n :: uint32_t) = n\<close> show "n \<in> unat ` {r :: uint32_t. r < m}"
      by (metis imageI)
  qed
  moreover have "inj_on unat {r :: uint32_t. r < m}"
    by (auto simp: inj_on_def word_unat_eq_iff)
  ultimately show ?thesis
    by (metis card_image card_lessThan)
qed

lemma geometric_mean:
  fixes p :: real
  assumes "0 \<le> p" "p < 1"
  shows "(\<lambda>n. real (Suc n) * p ^ n * (1 - p)) sums (1 / (1 - p))"
proof -
  have "norm p < 1" using assms by simp
  from geometric_deriv_sums [OF this]
  have "(\<lambda>n. of_nat (Suc n) * p ^ n) sums (1 / (1 - p)\<^sup>2)" .
  then have "(\<lambda>n. of_nat (Suc n) * p ^ n * (1 - p)) sums (1 / (1 - p)\<^sup>2 * (1 - p))"
    by (rule sums_mult2)
  moreover have "1 / (1 - p)\<^sup>2 * (1 - p) = 1 / (1 - p)"
    using assms by (simp add: power2_eq_square)
  ultimately show ?thesis by simp
qed

text \<open>
  Claim C3. For every \<^verbatim>\<open>upper_bound\<close> of at least 2, the threshold that the code computes
  as \<^verbatim>\<open>(uint32_t) (-upper_bound % upper_bound)\<close> in 32-bit unsigned arithmetic is
  \<open>2\<^sup>3\<^sup>2 mod upper_bound\<close>.
\<close>

theorem rejection_min_is_2_32_mod:
  "2 \<le> upper_bound \<Longrightarrow> unat (rejection_min upper_bound) = 2 ^ 32 mod unat upper_bound"
  by (rule unat_rejection_min) auto

theorem rejection_min_is_2_32_mod_witness:
  "(2 :: uint32_t) \<le> 10 \<and> unat (rejection_min 10) = 2 ^ 32 mod unat (10 :: uint32_t)"
  using rejection_min_is_2_32_mod [of 10] by simp

text \<open>
  Claim C6. For every \<^verbatim>\<open>upper_bound\<close> of at least 2 the threshold is strictly below
  \<open>2\<^sup>3\<^sup>1\<close>. Hence the share \<open>p\<close> of the \<open>2\<^sup>3\<^sup>2\<close> possible samples that the loop rejects
  is below one half, and the expected number of draws of a loop that rejects each draw
  independently with probability \<open>p\<close>, which is the sum over \<open>n\<close> of
  \<open>(n + 1) * p\<^sup>n * (1 - p)\<close>, converges to \<open>1 / (1 - p)\<close>, at most 2.
\<close>

theorem rejection_min_below_half:
  assumes "2 \<le> upper_bound"
  shows "unat (rejection_min upper_bound) < 2 ^ 31 \<and>
         (let p = real (card {r :: uint32_t. r < rejection_min upper_bound}) / 2 ^ 32
          in p < 1 / 2 \<and>
             (\<lambda>n. real (Suc n) * p ^ n * (1 - p)) sums (1 / (1 - p)) \<and>
             1 / (1 - p) \<le> 2)"
proof -
  from assms have nz: "upper_bound \<noteq> 0" by auto
  then have pos: "0 < unat upper_bound" by (simp add: unat_gt_0)
  have lt: "unat upper_bound < 2 ^ 32" using unsigned_less [of upper_bound] by simp
  have m: "unat (rejection_min upper_bound) < 2 ^ 31"
    using mod_below_half [OF pos lt] unat_rejection_min [OF nz] by simp
  define p where "p = real (card {r :: uint32_t. r < rejection_min upper_bound}) / 2 ^ 32"
  have p: "p = real (unat (rejection_min upper_bound)) / 2 ^ 32"
    by (simp add: p_def card_below)
  have "real (unat (rejection_min upper_bound)) < 2 ^ 31"
    using m by (metis of_nat_less_iff of_nat_numeral of_nat_power)
  then have half: "p < 1 / 2" by (simp add: p field_simps)
  have nonneg: "0 \<le> p" by (simp add: p_def)
  from half have "p < 1" by simp
  from geometric_mean [OF nonneg this]
  have s: "(\<lambda>n. real (Suc n) * p ^ n * (1 - p)) sums (1 / (1 - p))" .
  have e: "1 / (1 - p) \<le> 2" using half by (simp add: field_simps)
  from m half s e show ?thesis by (simp add: p_def Let_def)
qed

theorem rejection_min_below_half_witness:
  "(2 :: uint32_t) \<le> 10 \<and> unat (rejection_min 10) < 2 ^ 31 \<and>
   (let p = real (card {r :: uint32_t. r < rejection_min 10}) / 2 ^ 32
    in p < 1 / 2 \<and>
       (\<lambda>n. real (Suc n) * p ^ n * (1 - p)) sums (1 / (1 - p)) \<and>
       1 / (1 - p) \<le> 2)"
  using rejection_min_below_half [of 10] by simp

section \<open>The bounded sample\<close>

text \<open>
  Claim C9. For every \<^verbatim>\<open>upper_bound\<close> below 2, \<^verbatim>\<open>randombytes_sysrandom_uniform\<close> returns 0:
  it returns normally, whatever the state of the provider and of the host, and touches
  neither. In particular this holds for the bounds 0 and 1.
\<close>

theorem uniform_degenerate:
  "upper_bound < 2 \<Longrightarrow> randombytes_sysrandom_uniform w upper_bound = Return (0, w)"
  by (simp add: randombytes_sysrandom_uniform_def)

theorem uniform_degenerate_witness:
  "(0 :: uint32_t) < 2 \<and> randombytes_sysrandom_uniform (fresh []) 0 = Return (0, fresh []) \<and>
   (1 :: uint32_t) < 2 \<and> randombytes_sysrandom_uniform (fresh []) 1 = Return (0, fresh [])"
  using uniform_degenerate [of 0 "fresh []"] uniform_degenerate [of 1 "fresh []"] by simp

text \<open>The loop returns the first sample of the stream that reaches the threshold.\<close>

lemma uniform_loop_first:
  "uniform_loop w m = Return (r, w') \<Longrightarrow> List.find (\<lambda>r. m \<le> r) (sample_stream w) = Some r"
proof (induction w m rule: uniform_loop.induct)
  case (1 w m)
  show ?case
  proof (cases "randombytes_sysrandom w")
    case Abort
    with "1.prems" show ?thesis by (simp add: uniform_loop.simps [of w])
  next
    case (Return x)
    obtain r1 w1 where x: "x = (r1, w1)" by (cases x)
    show ?thesis
    proof (cases "m \<le> r1")
      case True
      with Return x "1.prems" show ?thesis
        by (simp add: uniform_loop.simps [of w] sample_stream.simps [of w])
    next
      case False
      with Return x "1.prems" have "uniform_loop w1 m = Return (r, w')"
        by (simp add: uniform_loop.simps [of w])
      with "1.IH" [OF Return x [symmetric] False]
      have "List.find (\<lambda>r. m \<le> r) (sample_stream w1) = Some r" by simp
      with Return x False show ?thesis
        by (simp add: sample_stream.simps [of w])
    qed
  qed
qed

text \<open>
  Claim C2. For every \<^verbatim>\<open>upper_bound\<close> of at least 2, whenever
  \<^verbatim>\<open>randombytes_sysrandom_uniform\<close> returns, the value \<open>v\<close> it returns is below
  \<^verbatim>\<open>upper_bound\<close>, and it is \<open>r mod upper_bound\<close> for the first sample \<open>r\<close> of the stream
  drawn from the entropy source with \<open>r \<ge> 2\<^sup>3\<^sup>2 mod upper_bound\<close>.
\<close>

theorem uniform_in_range:
  assumes "2 \<le> upper_bound"
    and "randombytes_sysrandom_uniform w upper_bound = Return (v, w')"
  shows "v < upper_bound \<and>
         (\<exists>r. List.find (\<lambda>r. 2 ^ 32 mod unat upper_bound \<le> unat r) (sample_stream w) = Some r \<and>
              v = r mod upper_bound)"
proof -
  from assms(1) have nz: "upper_bound \<noteq> 0" and n2: "\<not> upper_bound < 2" by auto
  from assms(2) n2 obtain r where
    loop: "uniform_loop w (rejection_min upper_bound) = Return (r, w')"
    and v: "v = r mod upper_bound"
    by (auto simp: randombytes_sysrandom_uniform_def split: outcome.splits)
  have "(\<lambda>r. rejection_min upper_bound \<le> r) = (\<lambda>r. 2 ^ 32 mod unat upper_bound \<le> unat r)"
    by (simp add: word_le_nat_alt unat_rejection_min [OF nz])
  with uniform_loop_first [OF loop]
  have "List.find (\<lambda>r. 2 ^ 32 mod unat upper_bound \<le> unat r) (sample_stream w) = Some r"
    by simp
  moreover have "v < upper_bound"
    using nz v by (simp add: word_mod_less_divisor word_neq_0_conv)
  ultimately show ?thesis using v by blast
qed

lemma three_uniform:
  "randombytes_sysrandom_uniform (fresh three_script) 3 =
     Return (1, (ready [])\<lparr>os := (os (ready []))\<lparr>errno := EINTR, syscalls :=
       [Access ''/dev/arandom'', Access ''/dev/urandom'', Open ''/dev/urandom'',
        Read 3 4, Read 3 4, Read 3 2, Read 3 2]\<rparr>\<rparr>)"
  by (simp add: three_script_def sample_defs provider_defs read_defs fixture_defs)

theorem uniform_in_range_witness:
  "(2 :: uint32_t) \<le> 3 \<and>
   (1 :: uint32_t) < 3 \<and>
   (\<exists>r. List.find (\<lambda>r. 2 ^ 32 mod unat (3 :: uint32_t) \<le> unat r)
          (sample_stream (fresh three_script)) = Some r \<and> 1 = r mod 3)"
proof -
  have h: "(2 :: uint32_t) \<le> 3" by simp
  from uniform_in_range [OF h three_uniform] h show ?thesis by simp
qed

text \<open>Scenario S2, evaluated.\<close>

lemma S2_samples: "sample_stream (fresh S2_script) = [0, 0xFFFFFFFF, 3, 9]"
  by (simp add: S2_script_def sample_defs provider_defs read_defs fixture_defs)

lemma S2_uniform:
  "(case randombytes_sysrandom_uniform (fresh S2_script) 10 of
      Abort \<Rightarrow> False
    | Return (v, w') \<Rightarrow> v = 5 \<and> pending (os w') = [Delivers [3, 0, 0, 0], Delivers [9, 0, 0, 0]])"
  by (simp add: S2_script_def sample_defs provider_defs read_defs fixture_defs)

text \<open>
  Claim C7. \<^verbatim>\<open>randombytes_sysrandom_uniform(10)\<close> on a sample stream that begins
  \<open>0x00000000\<close>, \<open>0xFFFFFFFF\<close>, \<open>0x00000003\<close>, \<open>0x00000009\<close>: the threshold is 6, the first
  sample is below it and is rejected, the second sample reaches it and is accepted, and the
  value returned is \<open>0xFFFFFFFF mod 10 = 5\<close>; the last two samples are still unread.
\<close>

theorem uniform_10_scenario:
  "rejection_min 10 = 6 \<and>
   sample_stream (fresh S2_script) = [0x00000000, 0xFFFFFFFF, 0x00000003, 0x00000009] \<and>
   (0x00000000 :: uint32_t) < rejection_min 10 \<and>
   rejection_min 10 \<le> (0xFFFFFFFF :: uint32_t) \<and>
   (0xFFFFFFFF :: uint32_t) mod 10 = 5 \<and>
   (case randombytes_sysrandom_uniform (fresh S2_script) 10 of
      Abort \<Rightarrow> False
    | Return (v, w') \<Rightarrow>
        v = 5 \<and> pending (os w') = [Delivers [3, 0, 0, 0], Delivers [9, 0, 0, 0]])"
proof -
  have m: "rejection_min 10 = 6" by (simp add: rejection_min_def)
  show ?thesis
    unfolding m using S2_samples S2_uniform by simp
qed


section \<open>The life cycle of the provider\<close>

lemma stir_fresh: "randombytes_sysrandom_stir (fresh script) = Return (ready script)"
  by (simp add: provider_defs fixture_defs)

lemma inv_fixtures: "stream_inv (fresh script) \<and> stream_inv (ready script) \<and> stream_inv stuck"
  by (simp add: stream_inv_def fixture_defs stuck_def)

text \<open>
  Claim C5. POSIX build, in a state that satisfies the invariant of the singleton:
  \<^verbatim>\<open>randombytes_sysrandom_close\<close> on an uninitialized provider returns \<open>-1\<close> and changes
  nothing; when the \<^verbatim>\<open>close\<close> of the host fails it returns \<open>-1\<close> and leaves the singleton
  as it was; when the provider is initialized and the host closes the descriptor it
  returns 0, the descriptor is \<open>-1\<close> and the flag is cleared, and a second close right after
  returns \<open>-1\<close>. \<^verbatim>\<open>_WIN32\<close> build: the same with \<^verbatim>\<open>CryptReleaseContext\<close>; there the
  descriptor member is never written and only the flag is cleared.
\<close>

theorem close_cases:
  "(stream_inv w \<longrightarrow>
     (\<not> initialized (stream w) \<longrightarrow> randombytes_sysrandom_close w = (- 1, w)) \<and>
     (initialized (stream w) \<and> close_result (os w) (random_data_source_fd (stream w)) \<noteq> 0 \<longrightarrow>
        fst (randombytes_sysrandom_close w) = - 1 \<and>
        stream (snd (randombytes_sysrandom_close w)) = stream w) \<and>
     (initialized (stream w) \<and> close_result (os w) (random_data_source_fd (stream w)) = 0 \<longrightarrow>
        fst (randombytes_sysrandom_close w) = 0 \<and>
        stream (snd (randombytes_sysrandom_close w)) =
          \<lparr>random_data_source_fd = - 1, initialized = False\<rparr> \<and>
        randombytes_sysrandom_close (snd (randombytes_sysrandom_close w)) =
          (- 1, snd (randombytes_sysrandom_close w)))) \<and>
   (\<not> initialized (stream_win32 v) \<or>
      \<not> release_result (os_win32 v) (hcrypt_prov (stream_win32 v)) \<longrightarrow>
        randombytes_sysrandom_close_win32 v = (- 1, v)) \<and>
   (initialized (stream_win32 v) \<and> release_result (os_win32 v) (hcrypt_prov (stream_win32 v)) \<longrightarrow>
        fst (randombytes_sysrandom_close_win32 v) = 0 \<and>
        \<not> initialized (stream_win32 (snd (randombytes_sysrandom_close_win32 v))) \<and>
        randombytes_sysrandom_close_win32 (snd (randombytes_sysrandom_close_win32 v)) =
          (- 1, snd (randombytes_sysrandom_close_win32 v)))"
  by (auto simp: stream_inv_def randombytes_sysrandom_close_def posix_close_def
                 randombytes_sysrandom_close_win32_def split: prod.splits)

theorem close_cases_witness:
  "stream_inv (fresh []) \<and> \<not> initialized (stream (fresh [])) \<and>
   randombytes_sysrandom_close (fresh []) = (- 1, fresh []) \<and>
   stream_inv stuck \<and> initialized (stream stuck) \<and>
   close_result (os stuck) (random_data_source_fd (stream stuck)) \<noteq> 0 \<and>
   fst (randombytes_sysrandom_close stuck) = - 1 \<and>
   stream (snd (randombytes_sysrandom_close stuck)) = stream stuck \<and>
   stream_inv (ready []) \<and> initialized (stream (ready [])) \<and>
   close_result (os (ready [])) (random_data_source_fd (stream (ready []))) = 0 \<and>
   fst (randombytes_sysrandom_close (ready [])) = 0 \<and>
   stream (snd (randombytes_sysrandom_close (ready []))) =
     \<lparr>random_data_source_fd = - 1, initialized = False\<rparr> \<and>
   randombytes_sysrandom_close (snd (randombytes_sysrandom_close (ready []))) =
     (- 1, snd (randombytes_sysrandom_close (ready []))) \<and>
   randombytes_sysrandom_close_win32 (closed_win32 True) = (- 1, closed_win32 True) \<and>
   randombytes_sysrandom_close_win32 (ready_win32 False) = (- 1, ready_win32 False) \<and>
   randombytes_sysrandom_close_win32 (ready_win32 True) = (0, closed_win32 True)"
proof -
  have a: "\<not> initialized (stream (fresh []))"
    and b: "initialized (stream stuck)"
           "close_result (os stuck) (random_data_source_fd (stream stuck)) \<noteq> 0"
    and c: "initialized (stream (ready []))"
           "close_result (os (ready [])) (random_data_source_fd (stream (ready []))) = 0"
    by (simp_all add: fixture_defs stuck_def)
  have d: "\<not> initialized (stream_win32 (closed_win32 True))"
    and e: "\<not> release_result (os_win32 (ready_win32 False))
                             (hcrypt_prov (stream_win32 (ready_win32 False)))"
    and f: "initialized (stream_win32 (ready_win32 True))"
           "release_result (os_win32 (ready_win32 True))
                           (hcrypt_prov (stream_win32 (ready_win32 True)))"
    by (simp_all add: closed_win32_def ready_win32_def host_win32_def)
  have g: "snd (randombytes_sysrandom_close_win32 (ready_win32 True)) = closed_win32 True"
    by (simp add: randombytes_sysrandom_close_win32_def closed_win32_def ready_win32_def
                  host_win32_def)
  from close_cases [of "fresh []" "closed_win32 True"] close_cases [of stuck "ready_win32 False"]
    close_cases [of "ready []" "ready_win32 True"] inv_fixtures [of "[]"] a b c d e f g
  show ?thesis
    by (metis prod.collapse)
qed

lemma stir_initialized:
  "randombytes_sysrandom_stir w = Return w' \<Longrightarrow> initialized (stream w')"
  by (auto simp: randombytes_sysrandom_stir_def randombytes_sysrandom_init_def
           split: if_splits outcome.splits prod.splits)

lemma stir_noop: "initialized (stream w) \<Longrightarrow> randombytes_sysrandom_stir w = Return w"
  by (simp add: randombytes_sysrandom_stir_def)

lemma stir_times_noop: "initialized (stream w) \<Longrightarrow> stir_times n w = Return w"
  by (induction n) (simp_all add: stir_noop)

text \<open>
  Claim C8. \<^verbatim>\<open>randombytes_sysrandom_stir\<close> is idempotent. From an uninitialized state it
  runs the acquisition, and either aborts or stores the descriptor and sets the flag; from
  an initialized state it returns the state as it is. So any number of calls in a row end
  in the state the first call produced: the same handle, and the same record of system
  calls, hence no further acquisition.
\<close>

theorem stir_idempotent:
  "stir_times (Suc n) w = randombytes_sysrandom_stir w \<and>
   (initialized (stream w) \<longrightarrow> randombytes_sysrandom_stir w = Return w) \<and>
   (\<not> initialized (stream w) \<longrightarrow>
      (case randombytes_sysrandom_random_dev_open w of
         (fd, s') \<Rightarrow>
           randombytes_sysrandom_stir w =
             (if fd = - 1 then Abort
              else Return \<lparr>stream = \<lparr>random_data_source_fd = fd, initialized = True\<rparr>,
                          os = s', use_blocking_random = use_blocking_random w\<rparr>))) \<and>
   (\<forall>w'. randombytes_sysrandom_stir w = Return w' \<longrightarrow>
      initialized (stream w') \<and> stir_times n w' = Return w')"
proof -
  have 1: "stir_times (Suc n) w = randombytes_sysrandom_stir w"
    by (cases "randombytes_sysrandom_stir w") (simp_all add: stir_initialized stir_times_noop)
  have 2: "initialized (stream w) \<longrightarrow> randombytes_sysrandom_stir w = Return w"
    by (simp add: stir_noop)
  have 3: "\<not> initialized (stream w) \<longrightarrow>
      (case randombytes_sysrandom_random_dev_open w of
         (fd, s') \<Rightarrow>
           randombytes_sysrandom_stir w =
             (if fd = - 1 then Abort
              else Return \<lparr>stream = \<lparr>random_data_source_fd = fd, initialized = True\<rparr>,
                          os = s', use_blocking_random = use_blocking_random w\<rparr>))"
    by (cases w) (auto simp: randombytes_sysrandom_stir_def randombytes_sysrandom_init_def
                  split: prod.splits)
  have 4: "\<forall>w'. randombytes_sysrandom_stir w = Return w' \<longrightarrow>
      initialized (stream w') \<and> stir_times n w' = Return w'"
    by (auto simp: stir_initialized stir_times_noop)
  from 1 2 3 4 show ?thesis by blast
qed

theorem stir_idempotent_witness:
  "\<not> initialized (stream (fresh [])) \<and>
   randombytes_sysrandom_random_dev_open (fresh []) = (3, os (ready [])) \<and>
   randombytes_sysrandom_stir (fresh []) = Return (ready []) \<and>
   stir_times (Suc 4) (fresh []) = Return (ready []) \<and>
   initialized (stream (ready [])) \<and>
   randombytes_sysrandom_stir (ready []) = Return (ready []) \<and>
   stir_times 4 (ready []) = Return (ready [])"
proof -
  have a: "\<not> initialized (stream (fresh []))" and b: "initialized (stream (ready []))"
    by (simp_all add: fixture_defs)
  have c: "randombytes_sysrandom_random_dev_open (fresh []) = (3, os (ready []))"
    by (simp add: provider_defs fixture_defs)
  from stir_idempotent [of 4 "fresh []"] stir_idempotent [of 4 "ready []"] a b c
    stir_fresh [of "[]"]
  show ?thesis by simp
qed

subsection \<open>The invariant of the singleton\<close>

lemma init_installs:
  "randombytes_sysrandom_init w = Return w' \<Longrightarrow>
     random_data_source_fd (stream w') \<noteq> - 1 \<and> initialized (stream w') = initialized (stream w)"
  by (auto simp: randombytes_sysrandom_init_def split: prod.splits if_splits)

lemma stream_inv_os [simp]: "stream_inv (w\<lparr>os := s\<rparr>) = stream_inv w"
  by (simp add: stream_inv_def)

lemma stir_inv:
  "stream_inv w \<Longrightarrow> randombytes_sysrandom_stir w = Return w' \<Longrightarrow> stream_inv w'"
  by (auto simp: stream_inv_def randombytes_sysrandom_stir_def dest!: init_installs
           split: if_splits outcome.splits)

lemma stir_if_needed_inv:
  "stream_inv w \<Longrightarrow> randombytes_sysrandom_stir_if_needed w = Return w' \<Longrightarrow> stream_inv w'"
  by (auto simp: randombytes_sysrandom_stir_if_needed_def dest: stir_inv split: if_splits)

lemma buf_inv:
  assumes "stream_inv w" and "randombytes_sysrandom_buf w n = Return (out, w')"
  shows "stream_inv w'"
proof -
  from assms(2) obtain w1 s' where
    "randombytes_sysrandom_stir_if_needed w = Return w1" and "w' = w1\<lparr>os := s'\<rparr>"
    by (auto simp: randombytes_sysrandom_buf_def split: outcome.splits prod.splits if_splits)
  with stir_if_needed_inv [OF assms(1)] show ?thesis by simp
qed

lemma sysrandom_inv:
  assumes "stream_inv w" and "randombytes_sysrandom w = Return (r, w')"
  shows "stream_inv w'"
proof -
  from assms(2) obtain w1 bytes where
    "randombytes_sysrandom_stir_if_needed w = Return w1"
    and "randombytes_sysrandom_buf w1 4 = Return (bytes, w')"
    by (auto simp: randombytes_sysrandom_def split: outcome.splits prod.splits)
  with stir_if_needed_inv [OF assms(1)] buf_inv show ?thesis by blast
qed

lemma uniform_loop_inv:
  "stream_inv w \<Longrightarrow> uniform_loop w m = Return (r, w') \<Longrightarrow> stream_inv w'"
proof (induction w m rule: uniform_loop.induct)
  case (1 w m)
  from "1.prems"(2) obtain r1 w1 where s: "randombytes_sysrandom w = Return (r1, w1)"
    by (auto simp: uniform_loop.simps [of w] split: outcome.splits)
  from sysrandom_inv [OF "1.prems"(1) s] have inv1: "stream_inv w1" .
  show ?case
  proof (cases "m \<le> r1")
    case True
    with s "1.prems"(2) have "w' = w1" by (simp add: uniform_loop.simps [of w])
    with inv1 show ?thesis by simp
  next
    case False
    with s "1.prems"(2) have "uniform_loop w1 m = Return (r, w')"
      by (simp add: uniform_loop.simps [of w])
    from "1.IH" [OF s refl False inv1 this] show ?thesis .
  qed
qed

lemma uniform_inv:
  "stream_inv w \<Longrightarrow> randombytes_sysrandom_uniform w ub = Return (v, w') \<Longrightarrow> stream_inv w'"
  by (auto simp: randombytes_sysrandom_uniform_def dest: uniform_loop_inv
           split: if_splits outcome.splits)

lemma close_inv: "stream_inv w \<Longrightarrow> stream_inv (snd (randombytes_sysrandom_close w))"
  by (auto simp: stream_inv_def randombytes_sysrandom_close_def posix_close_def)

lemma close_stream:
  "stream (snd (randombytes_sysrandom_close w)) = stream w \<or>
   close_result (os w) (random_data_source_fd (stream w)) = 0 \<and>
   fst (randombytes_sysrandom_close w) = 0 \<and>
   stream (snd (randombytes_sysrandom_close w)) = stream_init"
  by (auto simp: randombytes_sysrandom_close_def posix_close_def stream_init_def)

text \<open>
  Claim C10. POSIX build. The invariant \<open>initialized = 1\<close> if and only if
  \<open>random_data_source_fd \<noteq> -1\<close> holds of the static initialiser of \<^verbatim>\<open>stream\<close>, on any
  host, and every public operation that returns from a state with the invariant leaves a
  state with the invariant: stir, random, uniform, buf and close. Initialization returns
  only with a descriptor other than \<open>-1\<close> stored, and does not touch the flag (the caller
  sets it afterwards); close changes the singleton only when the \<^verbatim>\<open>close\<close> of the host
  returned 0, and then resets descriptor and flag together.
\<close>

theorem stream_inv_preserved:
  "stream_inv \<lparr>stream = stream_init, os = s, use_blocking_random = b\<rparr> \<and>
   (stream_inv w \<longrightarrow>
      (\<forall>w'. randombytes_sysrandom_stir w = Return w' \<longrightarrow> stream_inv w') \<and>
      (\<forall>r w'. randombytes_sysrandom w = Return (r, w') \<longrightarrow> stream_inv w') \<and>
      (\<forall>ub v w'. randombytes_sysrandom_uniform w ub = Return (v, w') \<longrightarrow> stream_inv w') \<and>
      (\<forall>n out w'. randombytes_sysrandom_buf w n = Return (out, w') \<longrightarrow> stream_inv w') \<and>
      stream_inv (snd (randombytes_sysrandom_close w))) \<and>
   (\<forall>w'. randombytes_sysrandom_init w = Return w' \<longrightarrow>
      random_data_source_fd (stream w') \<noteq> - 1 \<and> initialized (stream w') = initialized (stream w)) \<and>
   (stream (snd (randombytes_sysrandom_close w)) \<noteq> stream w \<longrightarrow>
      close_result (os w) (random_data_source_fd (stream w)) = 0 \<and>
      fst (randombytes_sysrandom_close w) = 0 \<and>
      stream (snd (randombytes_sysrandom_close w)) = stream_init)"
proof -
  have "stream_inv \<lparr>stream = stream_init, os = s, use_blocking_random = b\<rparr>"
    by (simp add: stream_inv_def stream_init_def)
  moreover have "stream_inv w \<longrightarrow>
      (\<forall>w'. randombytes_sysrandom_stir w = Return w' \<longrightarrow> stream_inv w') \<and>
      (\<forall>r w'. randombytes_sysrandom w = Return (r, w') \<longrightarrow> stream_inv w') \<and>
      (\<forall>ub v w'. randombytes_sysrandom_uniform w ub = Return (v, w') \<longrightarrow> stream_inv w') \<and>
      (\<forall>n out w'. randombytes_sysrandom_buf w n = Return (out, w') \<longrightarrow> stream_inv w') \<and>
      stream_inv (snd (randombytes_sysrandom_close w))"
    using stir_inv sysrandom_inv uniform_inv buf_inv close_inv by blast
  moreover have "\<forall>w'. randombytes_sysrandom_init w = Return w' \<longrightarrow>
      random_data_source_fd (stream w') \<noteq> - 1 \<and> initialized (stream w') = initialized (stream w)"
    using init_installs by blast
  moreover have "stream (snd (randombytes_sysrandom_close w)) \<noteq> stream w \<longrightarrow>
      close_result (os w) (random_data_source_fd (stream w)) = 0 \<and>
      fst (randombytes_sysrandom_close w) = 0 \<and>
      stream (snd (randombytes_sysrandom_close w)) = stream_init"
    using close_stream [of w] by blast
  ultimately show ?thesis by blast
qed

lemma three_calls:
  "\<exists>w'. randombytes_sysrandom (fresh three_script) = Return (0, w')"
  "\<exists>w'. randombytes_sysrandom_buf (fresh three_script) 5 = Return ([0, 0, 0, 0, 7], w')"
  "\<exists>w'. randombytes_sysrandom_init (fresh three_script) = Return w'"
  by (simp_all add: three_script_def sample_defs provider_defs read_defs fixture_defs)

lemma close_ready_changes:
  "stream (snd (randombytes_sysrandom_close (ready []))) \<noteq> stream (ready [])"
  by (simp add: randombytes_sysrandom_close_def posix_close_def fixture_defs)

theorem stream_inv_preserved_witness:
  "stream_inv (fresh three_script) \<and>
   (\<exists>w'. randombytes_sysrandom_stir (fresh three_script) = Return w' \<and> stream_inv w') \<and>
   (\<exists>w'. randombytes_sysrandom (fresh three_script) = Return (0, w') \<and> stream_inv w') \<and>
   (\<exists>w'. randombytes_sysrandom_uniform (fresh three_script) 3 = Return (1, w') \<and> stream_inv w') \<and>
   (\<exists>w'. randombytes_sysrandom_buf (fresh three_script) 5 = Return ([0, 0, 0, 0, 7], w') \<and>
         stream_inv w') \<and>
   stream_inv (snd (randombytes_sysrandom_close (fresh three_script))) \<and>
   (\<exists>w'. randombytes_sysrandom_init (fresh three_script) = Return w' \<and>
         random_data_source_fd (stream w') \<noteq> - 1 \<and> \<not> initialized (stream w')) \<and>
   stream (snd (randombytes_sysrandom_close (ready []))) \<noteq> stream (ready []) \<and>
   close_result (os (ready [])) (random_data_source_fd (stream (ready []))) = 0 \<and>
   fst (randombytes_sysrandom_close (ready [])) = 0 \<and>
   stream (snd (randombytes_sysrandom_close (ready []))) = stream_init"
proof -
  have i: "\<not> initialized (stream (fresh three_script))"
    by (simp add: fixture_defs)
  from stream_inv_preserved [of "host three_script" False "fresh three_script"]
    stream_inv_preserved [of "host []" False "ready []"]
    inv_fixtures [of three_script] stir_fresh [of three_script] three_calls three_uniform
    close_ready_changes i
  show ?thesis by metis
qed

section \<open>Byte delivery\<close>

subsection \<open>Facts about 64-bit sizes\<close>

lemma sint_of_small:
  assumes "n \<le> SSIZE_MAX"
  shows "sint (of_nat n :: ssize_t) = int n"
proof -
  have "int n < 2 ^ 63" using assms by (simp add: SSIZE_MAX_def)
  then have "signed_take_bit 63 (int n) = int n"
    by (intro signed_take_bit_int_eq_self) simp_all
  then show ?thesis
    by (simp add: signed_of_nat)
qed

lemma of_nat_not_negative:
  "n \<le> SSIZE_MAX \<Longrightarrow> \<not> (of_nat n :: ssize_t) <s 0"
  by (simp add: word_sless_alt sint_of_small)

lemma of_nat_zero_iff:
  assumes "n \<le> SSIZE_MAX"
  shows "(of_nat n :: ssize_t) = 0 \<longleftrightarrow> n = 0"
proof
  assume "(of_nat n :: ssize_t) = 0"
  then have "sint (of_nat n :: ssize_t) = 0" by simp
  with sint_of_small [OF assms] show "n = 0" by simp
qed simp

lemma unat_sub_of_nat:
  "n \<le> unat (count :: size_t) \<Longrightarrow> unat (count - of_nat n) = unat count - n"
  by (simp add: le_unat_uoi unat_sub word_le_nat_alt)

subsection \<open>One read, with retries\<close>

lemma posix_read_not_interrupted:
  assumes "posix_read s fd count = ((r, d), s')"
    and "pending s = [] \<or> \<not> interrupted (hd (pending s))"
  shows "\<not> (r <s 0 \<and> errno s' = EINTR)"
proof (cases "pending s")
  case Nil
  with assms(1) show ?thesis by (auto simp: posix_read_def)
next
  case (Cons e es)
  show ?thesis
  proof (cases e)
    case (Fails x)
    with Cons assms show ?thesis by (auto simp: posix_read_def)
  next
    case (Delivers bs)
    with Cons assms(1) have "r = of_nat (min (length bs) (min (unat count) SSIZE_MAX))"
      by (auto simp: posix_read_def Let_def)
    then show ?thesis by (simp add: of_nat_not_negative)
  qed
qed

lemma posix_read_interrupted:
  assumes "pending s = Fails EINTR # es"
  shows "\<exists>s'. posix_read s fd count = ((- 1, []), s') \<and> errno s' = EINTR \<and> pending s' = es"
  using assms by (simp add: posix_read_def)

lemma read_retry_stop:
  "posix_read s fd count = ((r, d), s') \<Longrightarrow> \<not> (r <s 0 \<and> errno s' = EINTR) \<Longrightarrow>
     read_retry s fd count = ((r, d), s')"
  by (subst read_retry.simps) auto

lemma read_retry_again:
  "posix_read s fd count = ((r, d), s') \<Longrightarrow> r <s 0 \<Longrightarrow> errno s' = EINTR \<Longrightarrow>
     read_retry s fd count = read_retry s' fd count"
  by (subst read_retry.simps) auto

text \<open>Interrupted reads are retried with no progress counted: the inner loop returns what
  the first read that is not interrupted returns.\<close>

lemma read_retry_skips:
  "\<exists>s0. pending s0 = dropWhile interrupted (pending s) \<and>
        read_retry s fd count = posix_read s0 fd count"
proof (induction "pending s" arbitrary: s)
  case Nil
  obtain r d s' where pr: "posix_read s fd count = ((r, d), s')" by (metis surj_pair)
  from posix_read_not_interrupted [OF pr] Nil have "\<not> (r <s 0 \<and> errno s' = EINTR)" by simp
  from read_retry_stop [OF pr this] pr have "read_retry s fd count = posix_read s fd count"
    by simp
  with Nil show ?case by (metis dropWhile.simps(1))
next
  case (Cons e es)
  show ?case
  proof (cases "interrupted e")
    case True
    then have e: "e = Fails EINTR" by (cases e) auto
    with Cons(2) have p: "pending s = Fails EINTR # es" by simp
    from posix_read_interrupted [OF p] obtain s' where
      pr: "posix_read s fd count = ((- 1, []), s')" and "errno s' = EINTR" and es: "pending s' = es"
      by blast
    then have "read_retry s fd count = read_retry s' fd count"
      by (intro read_retry_again [OF pr]) (simp_all add: word_sless_alt)
    moreover from Cons(1) [of s'] es obtain s0 where
      "pending s0 = dropWhile interrupted es" "read_retry s' fd count = posix_read s0 fd count"
      by auto
    ultimately show ?thesis using p True e by (metis dropWhile.simps(2) interrupted.simps(1))
  next
    case False
    obtain r d s' where pr: "posix_read s fd count = ((r, d), s')" by (metis surj_pair)
    from Cons(2) False have h: "pending s = [] \<or> \<not> interrupted (hd (pending s))"
      by (metis list.sel(1))
    from read_retry_stop [OF pr posix_read_not_interrupted [OF pr h]] pr
    have "read_retry s fd count = posix_read s fd count"
      by simp
    moreover from Cons(2) False have "dropWhile interrupted (pending s) = pending s"
      by (metis dropWhile.simps(2))
    ultimately show ?thesis by metis
  qed
qed


lemma benign_Cons:
  "benign (e # es) \<longleftrightarrow> (short_read e \<or> interrupted e) \<and> benign es"
  by (simp add: benign_def)

lemma benign_Nil [simp]: "benign []"
  by (simp add: benign_def)

lemma read_step:
  assumes "benign pre" and "chunks pre \<noteq> []" and "pending s = pre @ tail"
  shows "\<exists>n pre' s'. read_retry s fd count = ((of_nat n, take n (chunks pre)), s') \<and>
           n \<le> unat count \<and> n \<le> SSIZE_MAX \<and> n \<le> length (chunks pre) \<and>
           (count \<noteq> 0 \<longrightarrow> 0 < n) \<and>
           pending s' = pre' @ tail \<and> benign pre' \<and> chunks pre' = drop n (chunks pre)"
  using assms
proof (induction pre arbitrary: s)
  case Nil
  then show ?case by simp
next
  case (Cons e es)
  show ?case
  proof (cases e)
    case (Fails x)
    with Cons.prems(1) have x: "x = EINTR" by (simp add: benign_Cons)
    with Fails Cons.prems(3) have p: "pending s = Fails EINTR # (es @ tail)" by simp
    from posix_read_interrupted [OF p] obtain s1 where
      pr: "posix_read s fd count = ((- 1, []), s1)" and e1: "errno s1 = EINTR"
      and p1: "pending s1 = es @ tail"
      by blast
    have again: "read_retry s fd count = read_retry s1 fd count"
      by (rule read_retry_again [OF pr _ e1]) (simp add: word_sless_alt)
    from Cons.prems(1) have b: "benign es" by (simp add: benign_Cons)
    from Cons.prems(2) Fails have c: "chunks es \<noteq> []" by simp
    from Cons.IH [OF b c p1] again Fails show ?thesis by simp
  next
    case (Delivers bs)
    with Cons.prems(1) have bs: "bs \<noteq> []" and b: "benign es" by (simp_all add: benign_Cons)
    define n where "n = min (length bs) (min (unat count) SSIZE_MAX)"
    define pre' where "pre' = (if drop n bs = [] then es else Delivers (drop n bs) # es)"
    from Delivers Cons.prems(3) have p: "pending s = Delivers bs # (es @ tail)" by simp
    then obtain s' where pr: "posix_read s fd count = ((of_nat n, take n bs), s')"
      and p': "pending s' = pre' @ tail"
      by (auto simp: posix_read_def Let_def n_def pre'_def)
    have n: "n \<le> unat count" "n \<le> SSIZE_MAX" "n \<le> length bs"
      by (simp_all add: n_def)
    have pos: "count \<noteq> 0 \<longrightarrow> 0 < n"
      using bs by (auto simp: n_def SSIZE_MAX_def unat_gt_0)
    from read_retry_stop [OF pr] n(2)
    have rr: "read_retry s fd count = ((of_nat n, take n bs), s')"
      by (simp add: of_nat_not_negative)
    have "benign pre'" using b by (simp add: pre'_def benign_Cons)
    moreover have "chunks pre' = drop n (chunks (e # es))"
      using Delivers n(3) by (simp add: pre'_def)
    moreover have "take n bs = take n (chunks (e # es))"
      using Delivers n(3) by simp
    moreover have "n \<le> length (chunks (e # es))"
      using Delivers n(3) by simp
    ultimately show ?thesis using rr n pos p' by metis
  qed
qed

lemma benign_no_chunks:
  "benign pre \<Longrightarrow> chunks pre = [] \<Longrightarrow> dropWhile interrupted (pre @ tail) = dropWhile interrupted tail"
proof (induction pre)
  case Nil
  then show ?case by simp
next
  case (Cons e es)
  then show ?case by (cases e) (auto simp: benign_Cons)
qed

lemma read_step_end:
  assumes "benign pre" and "chunks pre = []" and "pending s = pre @ tail"
    and "tail = [] \<or> \<not> interrupted (hd tail)"
  shows "\<exists>s0. pending s0 = tail \<and> read_retry s fd count = posix_read s0 fd count"
proof -
  from assms(4) have "dropWhile interrupted tail = tail" by (cases tail) auto
  with benign_no_chunks [OF assms(1,2)] assms(3)
  have "dropWhile interrupted (pending s) = tail" by simp
  with read_retry_skips [of s fd count] show ?thesis by auto
qed


subsection \<open>The drain loop\<close>

lemma loop_err:
  "read_retry s fd count = ((r, d), s') \<Longrightarrow> r <s 0 \<Longrightarrow>
     safe_read_loop s fd out count = (r, out, s')"
  by (subst safe_read_loop.simps) simp

lemma loop_eof:
  "read_retry s fd count = ((0, d), s') \<Longrightarrow>
     safe_read_loop s fd out count = (of_nat (length out), out, s')"
  by (subst safe_read_loop.simps) (simp add: word_sless_alt)

lemma loop_more:
  "read_retry s fd count = ((r, d), s') \<Longrightarrow> \<not> r <s 0 \<Longrightarrow> r \<noteq> 0 \<Longrightarrow> 0 < count - r \<Longrightarrow>
     safe_read_loop s fd out count = safe_read_loop s' fd (out @ d) (count - r)"
  by (subst safe_read_loop.simps) simp

lemma loop_full:
  "read_retry s fd count = ((r, d), s') \<Longrightarrow> \<not> r <s 0 \<Longrightarrow> r \<noteq> 0 \<Longrightarrow> \<not> 0 < count - r \<Longrightarrow>
     safe_read_loop s fd out count = (of_nat (length (out @ d)), out @ d, s')"
  by (subst safe_read_loop.simps) simp

lemma safe_read_loop_delivers:
  assumes "benign pre" and "pending s = pre" and "unat count \<le> length (chunks pre)"
  shows "\<exists>s'. safe_read_loop s fd out count =
                (of_nat (length out + unat count), out @ take (unat count) (chunks pre), s') \<and>
              chunks (pending s') = drop (unat count) (chunks pre)"
  using assms
proof (induction "length (chunks pre)" arbitrary: s out count pre rule: less_induct)
  case less
  show ?case
  proof (cases "chunks pre = []")
    case True
    with less.prems(3) have c0: "unat count = 0" by simp
    from read_step_end [OF less.prems(1) True, of s "[]" fd count] less.prems(2)
    obtain s0 where "pending s0 = []" and "read_retry s fd count = posix_read s0 fd count"
      by auto
    then obtain s' where "read_retry s fd count = ((0, []), s')" and "pending s' = []"
      by (auto simp: posix_read_def)
    with loop_eof [of s fd count "[]" s' out] c0 True show ?thesis by simp
  next
    case False
    from read_step [OF less.prems(1) False, of s "[]" fd count] less.prems(2)
    obtain n pre' s' where
      rr: "read_retry s fd count = ((of_nat n, take n (chunks pre)), s')"
      and n: "n \<le> unat count" "n \<le> SSIZE_MAX" "n \<le> length (chunks pre)"
      and pos: "count \<noteq> 0 \<longrightarrow> 0 < n"
      and p': "pending s' = pre'" and b': "benign pre'"
      and c': "chunks pre' = drop n (chunks pre)"
      by auto
    show ?thesis
    proof (cases "n = 0")
      case True
      with pos have "unat count = 0" by auto
      with loop_eof [of s fd count _ s' out] rr True p' c' show ?thesis by simp
    next
      case n0: False
      have nn: "\<not> (of_nat n :: ssize_t) <s 0" and nz: "(of_nat n :: ssize_t) \<noteq> 0"
        using n(2) n0 by (simp_all add: of_nat_not_negative of_nat_zero_iff)
      have u: "unat (count - of_nat n) = unat count - n"
        by (rule unat_sub_of_nat [OF n(1)])
      show ?thesis
      proof (cases "0 < count - of_nat n")
        case True
        have lt: "length (chunks pre') < length (chunks pre)"
          using c' n0 n(3) by simp
        have le: "unat (count - of_nat n) \<le> length (chunks pre')"
          using u c' less.prems(3) by simp
        from less.hyps [OF lt b' p' le, of "out @ take n (chunks pre)"]
        obtain s'' where
          l: "safe_read_loop s' fd (out @ take n (chunks pre)) (count - of_nat n) =
                (of_nat (length (out @ take n (chunks pre)) + unat (count - of_nat n)),
                 (out @ take n (chunks pre)) @ take (unat (count - of_nat n)) (chunks pre'), s'')"
          and r: "chunks (pending s'') = drop (unat (count - of_nat n)) (chunks pre')"
          by blast
        have t: "take n (chunks pre) @ take (unat count - n) (drop n (chunks pre)) =
                 take (unat count) (chunks pre)"
          using n(1) by (metis le_add_diff_inverse take_add)
        have "safe_read_loop s fd out count =
                (of_nat (length out + unat count), out @ take (unat count) (chunks pre), s'')"
          using loop_more [OF rr nn nz True, of out] l u c' t n(1,3) by simp
        moreover have "chunks (pending s'') = drop (unat count) (chunks pre)"
          using r u c' n(1) by simp
        ultimately show ?thesis by blast
      next
        case False
        then have "unat (count - of_nat n) = 0"
          by (simp add: word_greater_zero_iff)
        with u n(1) have "unat count = n" by simp
        with loop_full [OF rr nn nz False, of out] p' c' n(3) show ?thesis by simp
      qed
    qed
  qed
qed


lemma posix_read_stop:
  assumes "pending s0 = tail" and "tail = [] \<or> \<not> interrupted (hd tail) \<and> \<not> short_read (hd tail)"
  shows "\<exists>s'. posix_read s0 fd count =
           ((case tail of Fails e # rest \<Rightarrow> - 1 | _ \<Rightarrow> 0, []), s') \<and>
           (case tail of Fails e # rest \<Rightarrow> errno s' = e \<and> e \<noteq> EINTR | _ \<Rightarrow> True)"
proof (cases tail)
  case Nil
  with assms(1) show ?thesis by (simp add: posix_read_def)
next
  case (Cons e rest)
  with assms show ?thesis
    by (cases e) (auto simp: posix_read_def Let_def)
qed

lemma safe_read_loop_stops:
  assumes "benign pre" and "pending s = pre @ tail" and "length (chunks pre) < unat count"
    and "tail = [] \<or> \<not> interrupted (hd tail) \<and> \<not> short_read (hd tail)"
  shows "\<exists>s'. safe_read_loop s fd out count =
           ((case tail of Fails e # rest \<Rightarrow> - 1 | _ \<Rightarrow> of_nat (length out + length (chunks pre))),
            out @ chunks pre, s')"
  using assms(1-3)
proof (induction "length (chunks pre)" arbitrary: s out count pre rule: less_induct)
  case less
  have stop: "tail = [] \<or> \<not> interrupted (hd tail)" using assms(4) by blast
  show ?case
  proof (cases "chunks pre = []")
    case True
    from read_step_end [OF less.prems(1) True less.prems(2) stop]
    obtain s0 where p0: "pending s0 = tail"
      and rr0: "read_retry s fd count = posix_read s0 fd count"
      by blast
    from posix_read_stop [OF p0 assms(4), of fd count] rr0 obtain s' where
      rr: "read_retry s fd count = ((case tail of Fails e # rest \<Rightarrow> - 1 | _ \<Rightarrow> 0, []), s')"
      by auto
    show ?thesis
    proof (cases "\<exists>e rest. tail = Fails e # rest")
      case True
      then obtain e rest where t: "tail = Fails e # rest" by blast
      with rr have "read_retry s fd count = ((- 1, []), s')" by simp
      from loop_err [OF this, of out] t \<open>chunks pre = []\<close> show ?thesis
        by (simp add: word_sless_alt)
    next
      case False
      then have c: "(case tail of Fails e # rest \<Rightarrow> (- 1 :: ssize_t) | _ \<Rightarrow> 0) = 0"
        and c': "\<And>x. (case tail of Fails e # rest \<Rightarrow> (- 1 :: ssize_t) | _ \<Rightarrow> x) = x"
        by (auto split: list.splits read_event.splits)
      from rr c have "read_retry s fd count = ((0, []), s')" by simp
      from loop_eof [OF this, of out] c' \<open>chunks pre = []\<close> show ?thesis by simp
    qed
  next
    case False
    from read_step [OF less.prems(1) False less.prems(2), of fd count]
    obtain n pre' s' where
      rr: "read_retry s fd count = ((of_nat n, take n (chunks pre)), s')"
      and n: "n \<le> unat count" "n \<le> SSIZE_MAX" "n \<le> length (chunks pre)"
      and pos: "count \<noteq> 0 \<longrightarrow> 0 < n"
      and p': "pending s' = pre' @ tail" and b': "benign pre'"
      and c': "chunks pre' = drop n (chunks pre)"
      by blast
    from less.prems(3) have "count \<noteq> 0" by auto
    with pos have n0: "0 < n" by simp
    have nn: "\<not> (of_nat n :: ssize_t) <s 0" and nz: "(of_nat n :: ssize_t) \<noteq> 0"
      using n(2) n0 by (simp_all add: of_nat_not_negative of_nat_zero_iff)
    have u: "unat (count - of_nat n) = unat count - n"
      by (rule unat_sub_of_nat [OF n(1)])
    with n(3) less.prems(3) have more: "0 < count - of_nat n"
      by (simp add: word_greater_zero_iff unat_eq_0 [symmetric])
    have lt: "length (chunks pre') < length (chunks pre)"
      using c' n0 n(3) by simp
    have le: "length (chunks pre') < unat (count - of_nat n)"
      using u c' less.prems(3) n(3) by simp
    from less.hyps [OF lt b' p' le, of "out @ take n (chunks pre)"]
    obtain s'' where
      l: "safe_read_loop s' fd (out @ take n (chunks pre)) (count - of_nat n) =
            ((case tail of Fails e # rest \<Rightarrow> - 1
              | _ \<Rightarrow> of_nat (length (out @ take n (chunks pre)) + length (chunks pre'))),
             (out @ take n (chunks pre)) @ chunks pre', s'')"
      by blast
    have e1: "length (out @ take n (chunks pre)) + length (chunks pre') =
          length out + length (chunks pre)"
      using c' n(3) by simp
    have e2: "(out @ take n (chunks pre)) @ chunks pre' = out @ chunks pre"
      using c' by simp
    from l have "safe_read_loop s' fd (out @ take n (chunks pre)) (count - of_nat n) =
            ((case tail of Fails e # rest \<Rightarrow> - 1
              | _ \<Rightarrow> of_nat (length out + length (chunks pre))),
             out @ chunks pre, s'')"
      by (simp only: e1 e2)
    with loop_more [OF rr nn nz more, of out] show ?thesis
      by (intro exI [of _ s'']) (simp only:)
  qed
qed


subsection \<open>Filling a buffer\<close>

text \<open>
  Claim C1. POSIX build, the acquisition of the source not aborting. For every \<^verbatim>\<open>size\<close>,
  0 included, and every script made of reads that deliver at least one byte and of reads
  that fail with \<^verbatim>\<open>EINTR\<close>, in any number and order, that holds \<^verbatim>\<open>size\<close> bytes or more:
  \<^verbatim>\<open>randombytes_sysrandom_buf\<close> returns, and it has written exactly \<^verbatim>\<open>size\<close> bytes, the
  first \<^verbatim>\<open>size\<close> bytes of the concatenation of the chunks (the whole concatenation when the
  script holds just \<^verbatim>\<open>size\<close> bytes); the bytes it did not take are still to be read. The
  interrupted reads contribute nothing.
\<close>

theorem buf_short_reads:
  assumes "randombytes_sysrandom_stir_if_needed w \<noteq> Abort"
    and "benign (pending (os w))"
    and "unat size' \<le> length (chunks (pending (os w)))"
  shows "\<exists>out w'. randombytes_sysrandom_buf w size' = Return (out, w') \<and>
           length out = unat size' \<and>
           out = take (unat size') (chunks (pending (os w))) \<and>
           chunks (pending (os w')) = drop (unat size') (chunks (pending (os w)))"
proof -
  from assms(1) obtain w1 where st: "randombytes_sysrandom_stir_if_needed w = Return w1"
    by (cases "randombytes_sysrandom_stir_if_needed w") auto
  note p = stir_if_needed_pending [OF st]
  from assms(2,3) p have b: "benign (pending (os w1))"
    and le: "unat size' \<le> length (chunks (pending (os w1)))"
    by simp_all
  from safe_read_loop_delivers [OF b refl le, of "random_data_source_fd (stream w1)" "[]"]
  obtain s' where
    sr: "safe_read (os w1) (random_data_source_fd (stream w1)) size' =
           (size', take (unat size') (chunks (pending (os w))), s')"
    and rest: "chunks (pending s') = drop (unat size') (chunks (pending (os w)))"
    by (auto simp: safe_read_def p)
  from st sr have "randombytes_sysrandom_buf w size' =
      Return (take (unat size') (chunks (pending (os w))), w1\<lparr>os := s'\<rparr>)"
    by (simp add: randombytes_sysrandom_buf_def)
  with rest assms(3) show ?thesis by simp
qed

lemma short_eval:
  "randombytes_sysrandom_stir_if_needed (fresh short_script) \<noteq> Abort"
  "benign (pending (os (fresh short_script)))"
  "chunks (pending (os (fresh short_script))) = [1, 2, 3, 4, 5, 6]"
  by (simp_all add: short_script_def provider_defs fixture_defs benign_def EINTR_def)

theorem buf_short_reads_witness:
  "randombytes_sysrandom_stir_if_needed (fresh short_script) \<noteq> Abort \<and>
   benign (pending (os (fresh short_script))) \<and>
   unat (5 :: size_t) \<le> length (chunks (pending (os (fresh short_script)))) \<and>
   (\<exists>w'. randombytes_sysrandom_buf (fresh short_script) 5 = Return ([1, 2, 3, 4, 5], w') \<and>
         chunks (pending (os w')) = [6]) \<and>
   (\<exists>w'. randombytes_sysrandom_buf (fresh short_script) 6 = Return ([1, 2, 3, 4, 5, 6], w') \<and>
         chunks (pending (os w')) = []) \<and>
   (\<exists>w'. randombytes_sysrandom_buf (fresh short_script) 0 = Return ([], w') \<and>
         chunks (pending (os w')) = [1, 2, 3, 4, 5, 6])"
  using buf_short_reads [of "fresh short_script" 5] buf_short_reads [of "fresh short_script" 6]
    buf_short_reads [of "fresh short_script" 0] short_eval
  by simp

text \<open>
  When the entropy read fails. The script delivers fewer than \<^verbatim>\<open>size\<close> bytes (\<open>pre\<close>) and
  then ends, returns 0, or fails with an error other than \<^verbatim>\<open>EINTR\<close>. In the first two
  cases \<^verbatim>\<open>randombytes_sysrandom_buf\<close> aborts. In the last case \<^verbatim>\<open>safe_read\<close> returns the
  \<open>-1\<close> of \<^verbatim>\<open>read\<close>, which is compared with \<^verbatim>\<open>(ssize_t) size\<close>: the call aborts unless
  \<^verbatim>\<open>size\<close> is \<^verbatim>\<open>SIZE_MAX\<close>, whose signed reading is \<open>-1\<close> as well; then it returns
  normally with fewer bytes written than were asked for.
\<close>

lemma buf_read_failure:
  assumes st: "randombytes_sysrandom_stir_if_needed w \<noteq> Abort"
    and p: "pending (os w) = pre @ tail" and b: "benign pre"
    and lt: "length (chunks pre) < unat size'"
  shows "tail = [] \<or> (\<exists>rest. tail = Delivers [] # rest) \<Longrightarrow>
           randombytes_sysrandom_buf w size' = Abort"
    and "tail = Fails e # rest \<Longrightarrow> e \<noteq> EINTR \<Longrightarrow> size' \<noteq> - 1 \<Longrightarrow>
           randombytes_sysrandom_buf w size' = Abort"
    and "tail = Fails e # rest \<Longrightarrow> e \<noteq> EINTR \<Longrightarrow> size' = - 1 \<Longrightarrow>
           \<exists>w'. randombytes_sysrandom_buf w size' = Return (chunks pre, w')"
proof -
  from st obtain w1 where st1: "randombytes_sysrandom_stir_if_needed w = Return w1"
    by (cases "randombytes_sysrandom_stir_if_needed w") auto
  from p stir_if_needed_pending [OF st1] have p1: "pending (os w1) = pre @ tail" by simp
  have loop: "\<exists>s'. safe_read (os w1) (random_data_source_fd (stream w1)) size' =
           ((case tail of Fails e # rest \<Rightarrow> - 1 | _ \<Rightarrow> of_nat (length (chunks pre))),
            chunks pre, s')"
    if "tail = [] \<or> \<not> interrupted (hd tail) \<and> \<not> short_read (hd tail)"
    using safe_read_loop_stops [OF b p1 lt that, of "random_data_source_fd (stream w1)" "[]"]
    by (simp add: safe_read_def cong: list.case_cong read_event.case_cong)
  have ne: "(of_nat (length (chunks pre)) :: ssize_t) \<noteq> size'"
  proof
    assume "(of_nat (length (chunks pre)) :: ssize_t) = size'"
    then have "unat (of_nat (length (chunks pre)) :: ssize_t) = unat size'" by simp
    moreover have "unat (of_nat (length (chunks pre)) :: ssize_t) = length (chunks pre)"
      using lt by (intro le_unat_uoi [of _ size']) simp
    ultimately show False using lt by simp
  qed
  show "randombytes_sysrandom_buf w size' = Abort"
    if t: "tail = [] \<or> (\<exists>rest. tail = Delivers [] # rest)"
  proof -
    from t have "tail = [] \<or> \<not> interrupted (hd tail) \<and> \<not> short_read (hd tail)" by auto
    from loop [OF this] t obtain s' where
      "safe_read (os w1) (random_data_source_fd (stream w1)) size' =
         (of_nat (length (chunks pre)), chunks pre, s')"
      by auto
    with st1 ne show ?thesis by (simp add: randombytes_sysrandom_buf_def)
  qed
  have failed: "\<exists>s'. safe_read (os w1) (random_data_source_fd (stream w1)) size' =
           (- 1, chunks pre, s')"
    if "tail = Fails e # rest" "e \<noteq> EINTR"
    using loop that by auto
  show "randombytes_sysrandom_buf w size' = Abort"
    if "tail = Fails e # rest" "e \<noteq> EINTR" "size' \<noteq> - 1"
    using failed [OF that(1,2)] st1 that(3) by (auto simp: randombytes_sysrandom_buf_def)
  show "\<exists>w'. randombytes_sysrandom_buf w size' = Return (chunks pre, w')"
    if "tail = Fails e # rest" "e \<noteq> EINTR" "size' = - 1"
    using failed [OF that(1,2)] st1 that(3) by (auto simp: randombytes_sysrandom_buf_def)
qed

lemma buf_win32_failure:
  assumes "gen_pending (os_win32 w) = [] \<or> hd (gen_pending (os_win32 w)) = None"
  shows "randombytes_sysrandom_buf_win32 w size' = Abort"
  using assms
  by (auto simp: randombytes_sysrandom_buf_win32_def randombytes_sysrandom_stir_if_needed_win32_def
                 randombytes_sysrandom_stir_win32_def randombytes_sysrandom_init_win32_def
                 CryptGenRandom_def
           split: outcome.splits option.splits list.splits)

text \<open>
  Claim C4. \<^verbatim>\<open>randombytes_sysrandom_buf\<close> is to abort, and never return normally, when the
  entropy read fails. For a read that returns 0 early, and for \<^verbatim>\<open>CryptGenRandom\<close> failing,
  the lemmas above show that it does. For a read that returns \<open>-1\<close> with an error other
  than \<^verbatim>\<open>EINTR\<close> it does not at \<^verbatim>\<open>size = SIZE_MAX\<close>: on an initialized provider whose
  first read fails with error 14 (\<^verbatim>\<open>EFAULT\<close> on Linux), the call with
  \<^verbatim>\<open>size = 0xFFFFFFFFFFFFFFFF\<close> returns normally after that one read, nothing written;
  the same call with \<^verbatim>\<open>size = 0xFFFFFFFFFFFFFFFE\<close> aborts.
\<close>

theorem buf_returns_after_failed_read:
  "(case randombytes_sysrandom_buf (ready [Fails 14]) 0xFFFFFFFFFFFFFFFF of
      Abort \<Rightarrow> False
    | Return (out, w') \<Rightarrow>
        out = [] \<and> pending (os w') = [] \<and> errno (os w') = 14 \<and>
        syscalls (os w') = syscalls (os (ready [])) @ [Read 3 0xFFFFFFFFFFFFFFFF]) \<and>
   randombytes_sysrandom_buf (ready [Fails 14]) 0xFFFFFFFFFFFFFFFE = Abort"
  by (simp add: randombytes_sysrandom_buf_def provider_defs read_defs fixture_defs)

end
